theory Spec2Isabelle
  imports Main
begin

section \<open>Data model\<close>

text \<open>
  Modelled from the spec: the type \<open>Document\<close> is imported by the picker from
  \<open>@/models/document\<close>, whose declaration is not among the sources. The record has
  the fields the spec lists for a document node; the picker reads \<open>id\<close>,
  \<open>parentId\<close>, \<open>title\<close>, \<open>canHaveChildren\<close> and \<open>isSubscribed\<close>. The
  field \<open>id\<close> is written \<open>id'\<close>, since \<open>id\<close> is the identity function of HOL.
  An absent \<open>parentId\<close> or \<open>storageKey\<close> is \<open>None\<close>.
\<close>

record Document =
  id' :: string
  parentId :: "string option"
  title :: string
  canHaveChildren :: bool
  isSubscribed :: bool
  storageKey :: "string option"

section \<open>Collecting the documents of a folder\<close>

text \<open>
  \<open>getDocumentsInFolder\<close> of the picker scans the whole list for the children of
  \<open>folderId\<close> (\<open>doc.parentId === folderId\<close>), pushes each child and, for a child
  that can have children, the result of the recursive call on it. The recursion of the
  source is not bounded, so the model carries the depth the call stack still allows:
  with none left the call does not return (\<open>None\<close>). \<open>collect\<close> is the
  \<open>for\<close> loop over the children.
\<close>

fun getDocumentsInFolder :: "nat \<Rightarrow> Document list \<Rightarrow> string \<Rightarrow> Document list option"
  and collect :: "nat \<Rightarrow> Document list \<Rightarrow> Document list \<Rightarrow> Document list option"
where
  "getDocumentsInFolder 0 docs folderId = None"
| "getDocumentsInFolder (Suc depth) docs folderId =
     collect depth docs (filter (\<lambda>doc. parentId doc = Some folderId) docs)"
| "collect depth docs [] = Some []"
| "collect depth docs (child # children) =
     (if canHaveChildren child then
        (case getDocumentsInFolder depth docs (id' child) of
           None \<Rightarrow> None
         | Some sub \<Rightarrow>
             (case collect depth docs children of
                None \<Rightarrow> None
              | Some rest \<Rightarrow> Some (child # sub @ rest)))
      else
        (case collect depth docs children of
           None \<Rightarrow> None
         | Some rest \<Rightarrow> Some (child # rest)))"

section \<open>Forests and descendants\<close>

text \<open>
  The invariant of the data model: identifiers are unique, a \<open>parentId\<close> that is
  present names a document of the list that can have children, and the parent links
  have no cycle. \<open>parent_rel\<close> holds the pair (child id, parent id) of every link.
\<close>

definition parent_rel :: "Document list \<Rightarrow> (string \<times> string) set" where
  "parent_rel docs = {(id' c, p) | c p. c \<in> set docs \<and> parentId c = Some p}"

definition unique_ids :: "Document list \<Rightarrow> bool" where
  "unique_ids docs \<longleftrightarrow> distinct (map id' docs)"

definition parents_are_folders :: "Document list \<Rightarrow> bool" where
  "parents_are_folders docs \<longleftrightarrow>
     (\<forall>c \<in> set docs. \<forall>p. parentId c = Some p \<longrightarrow>
        (\<exists>d \<in> set docs. id' d = p \<and> canHaveChildren d))"

definition forest :: "Document list \<Rightarrow> bool" where
  "forest docs \<longleftrightarrow>
     unique_ids docs \<and> parents_are_folders docs \<and> acyclic (parent_rel docs)"

text \<open>
  The documents below a folder: its children, and the documents below a child.
\<close>

inductive descendant :: "Document list \<Rightarrow> string \<Rightarrow> Document \<Rightarrow> bool"
  for docs :: "Document list"
where
  child: "d \<in> set docs \<Longrightarrow> parentId d = Some folderId \<Longrightarrow> descendant docs folderId d"
| below: "c \<in> set docs \<Longrightarrow> parentId c = Some folderId \<Longrightarrow> descendant docs (id' c) d
          \<Longrightarrow> descendant docs folderId d"

definition descendants :: "Document list \<Rightarrow> string \<Rightarrow> Document set" where
  "descendants docs folderId = {d. descendant docs folderId d}"

section \<open>The sync job\<close>

text \<open>
  The record of a sync job, with the fields and the three statuses of the model
  \<open>Knowledge\<close>; an optional field that is absent is \<open>None\<close>, a date is a number
  of milliseconds.
\<close>

datatype KnowledgeStatus = in_progress | completed | failed

record Knowledge =
  userId :: string
  connectionId :: string
  integrationId :: string
  integrationName :: string
  integrationLogo :: "string option"
  documents :: "Document list"
  syncStatus :: "KnowledgeStatus option"
  syncStartedAt :: "nat option"
  syncCompletedAt :: "nat option"
  syncError :: "string option"
  isTruncated :: "bool option"

text \<open>
  Modelled from the spec: the code that runs a sync job (it starts the job, ingests
  the remote listing and writes the status) is not among the sources, which hold only
  the record above and the picker that shows the truncation notice. The cap on the
  documents of one sync is 1000. The events of a job are its start, a manual resync,
  the end of the remote listing (with the documents listed) and an error during
  ingestion.
\<close>

definition ingestion_cap :: nat where
  "ingestion_cap = 1000"

datatype sync_event =
    StartSync nat
  | Resync nat
  | ListingEnded nat "Document list"
  | IngestionError string

text \<open>
  Modelled from the spec: the transitions of the spec's sync orchestrator, whose code
  is not among the sources. A job with no status is idle. Start takes an idle job to
  \<open>in_progress\<close>; resync clears the documents, \<open>syncError\<close> and \<open>isTruncated\<close>
  and starts afresh. A job in progress ends when the remote listing ends: within the
  cap it is \<open>completed\<close>; past the cap the listing is stopped after 1000 documents
  and the job is \<open>completed\<close> with \<open>isTruncated\<close> set. An error during ingestion
  takes a job in progress to \<open>failed\<close>, with the reason in \<open>syncError\<close>. No other
  transition exists.
\<close>

fun sync_step :: "sync_event \<Rightarrow> Knowledge \<Rightarrow> Knowledge" where
  "sync_step (StartSync now) k =
     (if syncStatus k = None
      then k\<lparr>syncStatus := Some in_progress, syncStartedAt := Some now\<rparr>
      else k)"
| "sync_step (Resync now) k =
     k\<lparr>documents := [], syncError := None, isTruncated := Some False,
       syncStatus := Some in_progress, syncStartedAt := Some now, syncCompletedAt := None\<rparr>"
| "sync_step (ListingEnded now listing) k =
     (if syncStatus k = Some in_progress
      then k\<lparr>documents := take ingestion_cap listing,
             isTruncated := Some (ingestion_cap < length listing),
             syncStatus := Some completed, syncCompletedAt := Some now\<rparr>
      else k)"
| "sync_step (IngestionError reason) k =
     (if syncStatus k = Some in_progress
      then k\<lparr>syncStatus := Some failed, syncError := Some reason\<rparr>
      else k)"

fun is_resync :: "sync_event \<Rightarrow> bool" where
  "is_resync (Resync now) = True"
| "is_resync e = False"

section \<open>The picker's state and its effects\<close>

text \<open>
  The picker holds the document list and the flag \<open>isSubscribing\<close> as component
  state. Everything a handler does to the outside is an effect, in the order the
  handler does it: the two setters, the request to the subscription endpoint (its url,
  and the \<open>documentIds\<close> and \<open>isSubscribed\<close> of its body), the error toast and the
  call of the property \<open>handleStartSync\<close>.
\<close>

record picker =
  documents :: "Document list"
  isSubscribing :: bool

datatype effect =
    SetIsSubscribing bool
  | SetDocuments "Document list"
  | Fetch string "string list" bool
  | ToastError string
  | HandleStartSync string

text \<open>
  Modelled from the spec: the setter \<open>setDocuments\<close> comes from the hook
  \<open>useDocuments\<close>, which is not among the sources; it is taken as the bulk replace of
  the tree store. \<open>setIsSubscribing\<close> is the setter of the picker's own state. The
  other effects leave the picker's state alone.
\<close>

fun apply_effect :: "effect \<Rightarrow> picker \<Rightarrow> picker" where
  "apply_effect (SetIsSubscribing b) s = s\<lparr>isSubscribing := b\<rparr>"
| "apply_effect (SetDocuments docs) s = s\<lparr>documents := docs\<rparr>"
| "apply_effect (Fetch url ids b) s = s"
| "apply_effect (ToastError msg) s = s"
| "apply_effect (HandleStartSync conn) s = s"

definition run :: "effect list \<Rightarrow> picker \<Rightarrow> picker" where
  "run effects s = fold apply_effect effects s"

fun is_fetch :: "effect \<Rightarrow> bool" where
  "is_fetch (Fetch url ids b) = True"
| "is_fetch e = False"

fun is_toast :: "effect \<Rightarrow> bool" where
  "is_toast (ToastError msg) = True"
| "is_toast e = False"

section \<open>Toggling a subscription\<close>

text \<open>
  What the awaited \<open>fetch\<close> gives back: a response with its \<open>ok\<close> flag, or a
  rejection (the transport failed), given by the text that \<open>"..." + error\<close> makes
  of the error caught.
\<close>

datatype fetch_outcome = Response bool | Rejected string

text \<open>
  \<open>documentsToUpdate\<close>: the identifier of the toggled document, followed for a
  document that can have children by the identifiers of \<open>getDocumentsInFolder\<close>.
\<close>

definition documentsToUpdate :: "nat \<Rightarrow> Document list \<Rightarrow> Document \<Rightarrow> string list option" where
  "documentsToUpdate depth docs document =
     (if canHaveChildren document then
        (case getDocumentsInFolder depth docs (id' document) of
           None \<Rightarrow> None
         | Some inFolder \<Rightarrow> Some (id' document # map id' inFolder))
      else Some [id' document])"

definition newDocuments :: "Document list \<Rightarrow> string list \<Rightarrow> bool \<Rightarrow> Document list" where
  "newDocuments docs ids newSubscriptionState =
     map (\<lambda>doc. if id' doc \<in> set ids then doc\<lparr>isSubscribed := newSubscriptionState\<rparr> else doc) docs"

text \<open>The url of the request; an absent connection id is interpolated as \<open>undefined\<close>.\<close>

definition subscribe_url :: "string option \<Rightarrow> string" where
  "subscribe_url conn =
     ''/api/integrations/'' @ (case conn of None \<Rightarrow> ''undefined'' | Some c \<Rightarrow> c)
       @ ''/documents/subscribe''"

text \<open>
  \<open>subscribeDocument\<close> up to the \<open>await\<close>: the flag is raised, the new list is
  computed from the list the handler closed over and written to the store, and the
  request is issued. When the folder scan does not return, neither does the handler.
\<close>

definition subscribeDocument_issue ::
  "nat \<Rightarrow> string option \<Rightarrow> Document list \<Rightarrow> Document \<Rightarrow> effect list option" where
  "subscribeDocument_issue depth conn docs document =
     (case documentsToUpdate depth docs document of
        None \<Rightarrow> None
      | Some ids \<Rightarrow>
          (let newSubscriptionState = \<not> isSubscribed document
           in Some [SetIsSubscribing True,
                    SetDocuments (newDocuments docs ids newSubscriptionState),
                    Fetch (subscribe_url conn) ids newSubscriptionState]))"

text \<open>
  \<open>subscribeDocument\<close> after the \<open>await\<close>: a response that is not \<open>ok\<close> puts
  \<open>currentDocuments\<close> back; an exception puts it back and raises the toast; the
  \<open>finally\<close> block lowers the flag.
\<close>

definition subscribeDocument_settle :: "Document list \<Rightarrow> fetch_outcome \<Rightarrow> effect list" where
  "subscribeDocument_settle currentDocuments outcome =
     (case outcome of
        Response ok \<Rightarrow> (if \<not> ok then [SetDocuments currentDocuments] else [])
      | Rejected error \<Rightarrow>
          [SetDocuments currentDocuments,
           ToastError (''Failed to update subscription: '' @ error)])
     @ [SetIsSubscribing False]"

definition subscribeDocument ::
  "nat \<Rightarrow> string option \<Rightarrow> Document list \<Rightarrow> Document \<Rightarrow> fetch_outcome \<Rightarrow> effect list option" where
  "subscribeDocument depth conn docs document outcome =
     (case subscribeDocument_issue depth conn docs document of
        None \<Rightarrow> None
      | Some issued \<Rightarrow> Some (issued @ subscribeDocument_settle docs outcome))"

text \<open>The picker's state after a whole toggle.\<close>

definition toggle ::
  "nat \<Rightarrow> string option \<Rightarrow> Document \<Rightarrow> fetch_outcome \<Rightarrow> picker \<Rightarrow> picker option" where
  "toggle depth conn document outcome s =
     (case subscribeDocument depth conn (documents s) document outcome of
        None \<Rightarrow> None
      | Some effects \<Rightarrow> Some (run effects s))"

section \<open>Resync\<close>

text \<open>
  \<open>reSync\<close> empties the store, then calls \<open>handleStartSync\<close> when the connection id
  is truthy (present and not the empty string).
\<close>

definition reSync :: "string option \<Rightarrow> effect list" where
  "reSync conn =
     SetDocuments [] #
     (case conn of None \<Rightarrow> [] | Some c \<Rightarrow> if c = [] then [] else [HandleStartSync c])"

section \<open>The truncation notice\<close>

text \<open>
  The picker shows the notice \<open>*Sync was truncated to 1000 documents\<close> when
  \<open>isTruncated\<close> is truthy, whatever the sync error and the documents are.
\<close>

definition truncationNotice :: "bool option \<Rightarrow> string option" where
  "truncationNotice truncated =
     (if truncated = Some True then Some ''*Sync was truncated to 1000 documents'' else None)"

section \<open>The nodes a toggle is meant to reach\<close>

text \<open>
  The set the spec names for a toggle of \<open>n\<close>: \<open>n\<close> itself, with its descendants
  when \<open>n\<close> can have children. \<open>changed\<close> is the set of nodes whose flag differs
  between a list and the list that replaced it, position by position.
\<close>

definition affected :: "Document list \<Rightarrow> Document \<Rightarrow> Document set" where
  "affected docs n =
     (if canHaveChildren n then insert n (descendants docs (id' n)) else {n})"

definition changed :: "Document list \<Rightarrow> Document list \<Rightarrow> Document set" where
  "changed docs docs' =
     set (map fst (filter (\<lambda>(d, d'). isSubscribed d' \<noteq> isSubscribed d) (zip docs docs')))"

section \<open>The example tree\<close>

text \<open>
  Folder \<open>F\<close> holds file \<open>A\<close> and folder \<open>G\<close>, which holds file \<open>B\<close>. Only
  \<open>A\<close> is subscribed.
\<close>

definition folderF :: Document where
  "folderF = \<lparr>id' = ''F'', parentId = None, title = ''Reports'', canHaveChildren = True,
     isSubscribed = False, storageKey = None\<rparr>"

definition fileA :: Document where
  "fileA = \<lparr>id' = ''A'', parentId = Some ''F'', title = ''a.txt'', canHaveChildren = False,
     isSubscribed = True, storageKey = None\<rparr>"

definition folderG :: Document where
  "folderG = \<lparr>id' = ''G'', parentId = Some ''F'', title = ''Archive'', canHaveChildren = True,
     isSubscribed = False, storageKey = None\<rparr>"

definition fileB :: Document where
  "fileB = \<lparr>id' = ''B'', parentId = Some ''G'', title = ''b.txt'', canHaveChildren = False,
     isSubscribed = False, storageKey = None\<rparr>"

definition example_docs :: "Document list" where
  "example_docs = [folderF, fileA, folderG, fileB]"

definition example_picker :: picker where
  "example_picker = \<lparr>documents = example_docs, isSubscribing = False\<rparr>"

text \<open>The effects of a toggle of \<open>F\<close> up to the request.\<close>

definition example_issued_F :: "effect list" where
  "example_issued_F =
     [SetIsSubscribing True,
      SetDocuments (newDocuments example_docs [''F'', ''A'', ''G'', ''B''] True),
      Fetch ''/api/integrations/c1/documents/subscribe'' [''F'', ''A'', ''G'', ''B''] True]"

text \<open>The picker after a toggle of \<open>F\<close> that succeeded.\<close>

definition example_after_F :: picker where
  "example_after_F =
     \<lparr>documents = [folderF\<lparr>isSubscribed := True\<rparr>, fileA, folderG\<lparr>isSubscribed := True\<rparr>,
        fileB\<lparr>isSubscribed := True\<rparr>],
      isSubscribing = False\<rparr>"

text \<open>A job in progress, and a listing of 1001 documents.\<close>

definition example_job :: Knowledge where
  "example_job = \<lparr>userId = ''u1'', connectionId = ''c1'', integrationId = ''i1'',
     integrationName = ''Drive'', integrationLogo = None, documents = [],
     syncStatus = Some in_progress, syncStartedAt = Some 0, syncCompletedAt = None,
     syncError = None, isTruncated = Some False\<rparr>"

definition long_listing :: "Document list" where
  "long_listing = replicate 1001 fileB"

text \<open>Two folders that name each other as parent.\<close>

definition cyclic_docs :: "Document list" where
  "cyclic_docs =
     [\<lparr>id' = ''P'', parentId = Some ''Q'', title = ''p'', canHaveChildren = True,
        isSubscribed = False, storageKey = None\<rparr>,
      \<lparr>id' = ''Q'', parentId = Some ''P'', title = ''q'', canHaveChildren = True,
        isSubscribed = False, storageKey = None\<rparr>]"

section \<open>Properties of the folder scan\<close>

lemma getDocumentsInFolder_collect_mono:
  "getDocumentsInFolder n docs f = Some r \<Longrightarrow> getDocumentsInFolder (n + k) docs f = Some r"
  "collect n docs cs = Some r' \<Longrightarrow> collect (n + k) docs cs = Some r'"
proof (induction n docs f and n docs cs arbitrary: r and r'
    rule: getDocumentsInFolder_collect.induct)
  case (1 docs folderId)
  then show ?case by simp
next
  case (2 depth docs folderId)
  then show ?case by simp
next
  case (3 depth docs)
  then show ?case by simp
next
  case (4 depth docs child children)
  then show ?case
    by (auto split: option.splits if_splits)
qed

lemma getDocumentsInFolder_more_depth:
  "getDocumentsInFolder n docs f = Some r \<Longrightarrow> n \<le> m \<Longrightarrow> getDocumentsInFolder m docs f = Some r"
  using getDocumentsInFolder_collect_mono(1) [of n docs f r "m - n"] by simp

lemma collect_more_depth:
  "collect n docs cs = Some r \<Longrightarrow> n \<le> m \<Longrightarrow> collect m docs cs = Some r"
  using getDocumentsInFolder_collect_mono(2) [of n docs cs r "m - n"] by simp


lemma finite_parent_rel: "finite (parent_rel docs)"
proof -
  have "parent_rel docs \<subseteq> (\<lambda>c. (id' c, the (parentId c))) ` set docs"
    by (force simp: parent_rel_def)
  then show ?thesis
    by (rule finite_subset) simp
qed

lemma wf_parent_rel: "acyclic (parent_rel docs) \<Longrightarrow> wf (parent_rel docs)"
  by (simp add: finite_acyclic_wf finite_parent_rel)

lemma collect_returns:
  "(\<And>c. c \<in> set cs \<Longrightarrow> canHaveChildren c \<Longrightarrow> \<exists>n r. getDocumentsInFolder n docs (id' c) = Some r)
   \<Longrightarrow> \<exists>n r. collect n docs cs = Some r"
proof (induction cs)
  case Nil
  show ?case by simp
next
  case (Cons c cs)
  then obtain n r where rest: "collect n docs cs = Some r"
    by auto
  show ?case
  proof (cases "canHaveChildren c")
    case True
    have "\<exists>m s. getDocumentsInFolder m docs (id' c) = Some s"
      using Cons.prems [of c] True by simp
    then obtain m s where sub: "getDocumentsInFolder m docs (id' c) = Some s"
      by blast
    have "getDocumentsInFolder (max m n) docs (id' c) = Some s"
      using sub by (rule getDocumentsInFolder_more_depth) simp
    moreover have "collect (max m n) docs cs = Some r"
      using rest by (rule collect_more_depth) simp
    ultimately have "collect (max m n) docs (c # cs) = Some (c # s @ r)"
      using True by simp
    then show ?thesis by blast
  next
    case False
    with rest have "collect n docs (c # cs) = Some (c # r)"
      by simp
    then show ?thesis by blast
  qed
qed

lemma getDocumentsInFolder_returns:
  assumes "acyclic (parent_rel docs)"
  shows "\<exists>n r. getDocumentsInFolder n docs f = Some r"
  using wf_parent_rel [OF assms]
proof (induction f rule: wf_induct_rule)
  case (less f)
  have "\<exists>n r. collect n docs (filter (\<lambda>doc. parentId doc = Some f) docs) = Some r"
  proof (rule collect_returns)
    fix c
    assume "c \<in> set (filter (\<lambda>doc. parentId doc = Some f) docs)"
    then have "(id' c, f) \<in> parent_rel docs"
      by (auto simp: parent_rel_def)
    then show "\<exists>n r. getDocumentsInFolder n docs (id' c) = Some r"
      by (rule less.IH)
  qed
  then obtain n r where "collect n docs (filter (\<lambda>doc. parentId doc = Some f) docs) = Some r"
    by blast
  then have "getDocumentsInFolder (Suc n) docs f = Some r"
    by simp
  then show ?case by blast
qed


lemma getDocumentsInFolder_collect_sound:
  "getDocumentsInFolder n docs f = Some r \<Longrightarrow> d \<in> set r \<Longrightarrow> descendant docs f d"
  "collect n docs cs = Some r' \<Longrightarrow> \<forall>c \<in> set cs. c \<in> set docs \<and> parentId c = Some g
     \<Longrightarrow> d \<in> set r' \<Longrightarrow> descendant docs g d"
proof (induction n docs f and n docs cs arbitrary: r d and r' d g
    rule: getDocumentsInFolder_collect.induct)
  case (1 docs folderId)
  then show ?case by simp
next
  case (2 depth docs folderId)
  from "2.prems" have
    "collect depth docs (filter (\<lambda>doc. parentId doc = Some folderId) docs) = Some r"
    by simp
  then show ?case
    by (rule "2.IH") (use "2.prems" in auto)
next
  case (3 depth docs)
  then show ?case by simp
next
  case (4 depth docs child children)
  have child: "child \<in> set docs" "parentId child = Some g"
    using "4.prems"(2) by simp_all
  have rest: "\<forall>c \<in> set children. c \<in> set docs \<and> parentId c = Some g"
    using "4.prems"(2) by simp
  show ?case
  proof (cases "canHaveChildren child")
    case True
    with "4.prems"(1) obtain sub rest' where
      sub: "getDocumentsInFolder depth docs (id' child) = Some sub" and
      rest': "collect depth docs children = Some rest'" and
      r': "r' = child # sub @ rest'"
      by (auto split: option.splits)
    from "4.prems"(3) r' consider "d = child" | "d \<in> set sub" | "d \<in> set rest'"
      by auto
    then show ?thesis
    proof cases
      case 1
      with child show ?thesis by (simp add: descendant.child)
    next
      case 2
      with True sub have "descendant docs (id' child) d"
        by (rule "4.IH"(1))
      with child show ?thesis by (simp add: descendant.below)
    next
      case 3
      with True sub rest' rest show ?thesis
        using "4.IH"(2) by blast
    qed
  next
    case False
    with "4.prems"(1) obtain rest' where
      rest': "collect depth docs children = Some rest'" and
      r': "r' = child # rest'"
      by (auto split: option.splits)
    from "4.prems"(3) r' consider "d = child" | "d \<in> set rest'"
      by auto
    then show ?thesis
    proof cases
      case 1
      with child show ?thesis by (simp add: descendant.child)
    next
      case 2
      with False rest' rest show ?thesis
        using "4.IH"(3) by blast
    qed
  qed
qed

lemma collect_children:
  "collect n docs cs = Some r \<Longrightarrow> set cs \<subseteq> set r"
  by (induction cs arbitrary: r) (auto split: option.splits if_splits)

lemma collect_sub:
  "collect n docs cs = Some r \<Longrightarrow> c \<in> set cs \<Longrightarrow> canHaveChildren c
   \<Longrightarrow> \<exists>s. getDocumentsInFolder n docs (id' c) = Some s \<and> set s \<subseteq> set r"
proof (induction cs arbitrary: r)
  case Nil
  then show ?case by simp
next
  case (Cons a cs)
  from Cons.prems(1) have "\<exists>rest. collect n docs cs = Some rest \<and> set rest \<subseteq> set r"
    by (auto split: option.splits if_splits)
  then obtain rest where rest: "collect n docs cs = Some rest" "set rest \<subseteq> set r"
    by blast
  show ?case
  proof (cases "c = a")
    case True
    with Cons.prems(1,3) show ?thesis
      by (auto split: option.splits)
  next
    case False
    with Cons.prems(2) have "c \<in> set cs" by simp
    with rest(1)
    have "\<exists>s. getDocumentsInFolder n docs (id' c) = Some s \<and> set s \<subseteq> set rest"
      using Cons.prems(3) by (rule Cons.IH)
    with rest(2) show ?thesis by blast
  qed
qed

lemma descendant_has_child:
  "descendant docs f d \<Longrightarrow> \<exists>c \<in> set docs. parentId c = Some f"
  by (induction rule: descendant.induct) auto

lemma descendant_in_docs:
  "descendant docs f d \<Longrightarrow> d \<in> set docs"
  by (induction rule: descendant.induct) auto

lemma unique_ids_eq:
  "unique_ids docs \<Longrightarrow> a \<in> set docs \<Longrightarrow> b \<in> set docs \<Longrightarrow> id' a = id' b \<Longrightarrow> a = b"
proof -
  assume "unique_ids docs" and ab: "a \<in> set docs" "b \<in> set docs" "id' a = id' b"
  then have "inj_on id' (set docs)"
    by (simp add: unique_ids_def distinct_map)
  then show "a = b"
    using ab(3,1,2) by (rule inj_onD)
qed

lemma parent_is_container:
  assumes "unique_ids docs" "parents_are_folders docs"
    and "c \<in> set docs" "e \<in> set docs" "parentId e = Some (id' c)"
  shows "canHaveChildren c"
proof -
  from assms(2,4,5) obtain d where d: "d \<in> set docs" "id' d = id' c" "canHaveChildren d"
    unfolding parents_are_folders_def by blast
  from assms(1) d(1) assms(3) d(2) have "d = c"
    by (rule unique_ids_eq)
  with d(3) show ?thesis by simp
qed

lemma getDocumentsInFolder_complete:
  assumes "unique_ids docs" "parents_are_folders docs"
  shows "descendant docs f d \<Longrightarrow> getDocumentsInFolder n docs f = Some r \<Longrightarrow> d \<in> set r"
proof (induction arbitrary: n r rule: descendant.induct)
  case (child d f)
  from child.prems obtain m where
    "collect m docs (filter (\<lambda>doc. parentId doc = Some f) docs) = Some r"
    by (cases n) auto
  then have "set (filter (\<lambda>doc. parentId doc = Some f) docs) \<subseteq> set r"
    by (rule collect_children)
  with child.hyps show ?case by auto
next
  case (below c f d)
  from below.prems obtain m where
    m: "collect m docs (filter (\<lambda>doc. parentId doc = Some f) docs) = Some r"
    by (cases n) auto
  from below.hyps(3) obtain e where "e \<in> set docs" "parentId e = Some (id' c)"
    using descendant_has_child by blast
  with assms below.hyps(1) have "canHaveChildren c"
    by (simp add: parent_is_container)
  moreover have "c \<in> set (filter (\<lambda>doc. parentId doc = Some f) docs)"
    using below.hyps(1,2) by simp
  ultimately obtain s where s: "getDocumentsInFolder m docs (id' c) = Some s" "set s \<subseteq> set r"
    using collect_sub [OF m] by blast
  from s(1) have "d \<in> set s"
    by (rule below.IH)
  with s(2) show ?case by blast
qed

text \<open>
  With unique identifiers the documents below a folder are the documents of the list
  from which the parent links lead to the folder in one or more steps.
\<close>

lemma descendant_trancl:
  "descendant docs f d \<Longrightarrow> (id' d, f) \<in> (parent_rel docs)\<^sup>+"
proof (induction rule: descendant.induct)
  case (child d f)
  then have "(id' d, f) \<in> parent_rel docs"
    by (auto simp: parent_rel_def)
  then show ?case by blast
next
  case (below c f d)
  from below.hyps(1,2) have "(id' c, f) \<in> parent_rel docs"
    by (auto simp: parent_rel_def)
  with below.IH show ?case by (rule trancl_into_trancl)
qed

lemma trancl_descendant:
  assumes "unique_ids docs" "d \<in> set docs"
  shows "(id' d, f) \<in> (parent_rel docs)\<^sup>+ \<Longrightarrow> descendant docs f d"
proof (induction rule: trancl_induct)
  case (base y)
  then obtain c where c: "c \<in> set docs" "id' c = id' d" "parentId c = Some y"
    by (auto simp: parent_rel_def)
  from assms(1) c(1) assms(2) c(2) have "c = d"
    by (rule unique_ids_eq)
  with c show ?case by (simp add: descendant.child)
next
  case (step y z)
  from step.hyps(2) obtain c where c: "c \<in> set docs" "id' c = y" "parentId c = Some z"
    by (auto simp: parent_rel_def)
  from c(1,3) step.IH [folded c(2)] show ?case
    by (rule descendant.below)
qed

lemma descendants_trancl:
  "unique_ids docs \<Longrightarrow>
     descendants docs f = {d \<in> set docs. (id' d, f) \<in> (parent_rel docs)\<^sup>+}"
proof (rule set_eqI)
  fix d
  assume u: "unique_ids docs"
  show "d \<in> descendants docs f \<longleftrightarrow> d \<in> {d \<in> set docs. (id' d, f) \<in> (parent_rel docs)\<^sup>+}"
  proof
    assume "d \<in> descendants docs f"
    then have "descendant docs f d"
      by (simp add: descendants_def)
    then show "d \<in> {d \<in> set docs. (id' d, f) \<in> (parent_rel docs)\<^sup>+}"
      using descendant_in_docs descendant_trancl by blast
  next
    assume "d \<in> {d \<in> set docs. (id' d, f) \<in> (parent_rel docs)\<^sup>+}"
    then have "d \<in> set docs" "(id' d, f) \<in> (parent_rel docs)\<^sup>+"
      by simp_all
    with u have "descendant docs f d"
      by (rule trancl_descendant)
    then show "d \<in> descendants docs f"
      by (simp add: descendants_def)
  qed
qed

lemma getDocumentsInFolder_result:
  assumes "forest docs" "getDocumentsInFolder n docs f = Some r"
  shows "set r = descendants docs f"
proof (rule set_eqI)
  fix d
  show "d \<in> set r \<longleftrightarrow> d \<in> descendants docs f"
  proof
    assume "d \<in> set r"
    with assms(2) have "descendant docs f d"
      by (rule getDocumentsInFolder_collect_sound(1))
    then show "d \<in> descendants docs f"
      by (simp add: descendants_def)
  next
    assume "d \<in> descendants docs f"
    then have "descendant docs f d"
      by (simp add: descendants_def)
    moreover from assms(1) have "unique_ids docs" "parents_are_folders docs"
      by (simp_all add: forest_def)
    ultimately show "d \<in> set r"
      using assms(2) by (simp add: getDocumentsInFolder_complete)
  qed
qed

lemma getDocumentsInFolder_returns_descendants:
  assumes "forest docs"
  shows "\<exists>n r. (\<forall>m \<ge> n. getDocumentsInFolder m docs folderId = Some r)
           \<and> set r = descendants docs folderId"
proof -
  from assms have "acyclic (parent_rel docs)"
    by (simp add: forest_def)
  then obtain n r where nr: "getDocumentsInFolder n docs folderId = Some r"
    using getDocumentsInFolder_returns by blast
  then have "\<forall>m \<ge> n. getDocumentsInFolder m docs folderId = Some r"
    using getDocumentsInFolder_more_depth by blast
  moreover from assms nr have "set r = descendants docs folderId"
    by (rule getDocumentsInFolder_result)
  ultimately show ?thesis by blast
qed


text \<open>
  Claim C10. Where the parent links have no cycle the folder scan returns: from some
  depth of the call stack on, every call on \<open>folderId\<close> gives the same list. Every
  document of that list lies below \<open>folderId\<close>, and on a forest (unique identifiers,
  every parent a folder of the list) the list holds exactly the documents below
  \<open>folderId\<close>. Acyclicity is what makes the parent relation well-founded
  (\<open>wf_parent_rel\<close>); \<open>getDocumentsInFolder_needs_acyclic\<close> below is the converse.
\<close>

theorem getDocumentsInFolder_forest:
  assumes "acyclic (parent_rel docs)"
  shows "\<exists>n r. (\<forall>m \<ge> n. getDocumentsInFolder m docs folderId = Some r)
           \<and> set r \<subseteq> descendants docs folderId
           \<and> (forest docs \<longrightarrow> set r = descendants docs folderId)"
proof -
  from assms obtain n r where nr: "getDocumentsInFolder n docs folderId = Some r"
    using getDocumentsInFolder_returns by blast
  then have "\<forall>m \<ge> n. getDocumentsInFolder m docs folderId = Some r"
    using getDocumentsInFolder_more_depth by blast
  moreover from nr have "set r \<subseteq> descendants docs folderId"
    by (auto simp: descendants_def intro: getDocumentsInFolder_collect_sound(1))
  moreover from nr have "forest docs \<longrightarrow> set r = descendants docs folderId"
    by (simp add: getDocumentsInFolder_result)
  ultimately show ?thesis by blast
qed

text \<open>
  Without acyclicity the scan need not return: where identifiers are unique and every
  parent is a folder, a folder that lies on a cycle of parent links is scanned without
  end, at every depth.
\<close>

lemma getDocumentsInFolder_on_cycle:
  assumes "unique_ids docs" "parents_are_folders docs"
  shows "(x, x) \<in> (parent_rel docs)\<^sup>+ \<Longrightarrow> getDocumentsInFolder n docs x = None"
proof (induction n arbitrary: x)
  case 0
  show ?case by simp
next
  case (Suc n)
  from Suc.prems obtain z where z: "(x, z) \<in> (parent_rel docs)\<^sup>*" "(z, x) \<in> parent_rel docs"
    by (blast dest: tranclD2)
  then have cyc: "(z, z) \<in> (parent_rel docs)\<^sup>+"
    by (simp add: rtrancl_into_trancl2)
  from z(2) obtain c where c: "c \<in> set docs" "id' c = z" "parentId c = Some x"
    by (auto simp: parent_rel_def)
  from cyc obtain w where "(w, z) \<in> parent_rel docs"
    by (blast dest: tranclD2)
  then obtain e where "e \<in> set docs" "parentId e = Some (id' c)"
    using c(2) by (auto simp: parent_rel_def)
  with assms c(1) have folder: "canHaveChildren c"
    by (simp add: parent_is_container)
  have none: "getDocumentsInFolder n docs (id' c) = None"
    using cyc c(2) by (simp add: Suc.IH)
  have mem: "c \<in> set (filter (\<lambda>doc. parentId doc = Some x) docs)"
    using c by simp
  have "collect n docs (filter (\<lambda>doc. parentId doc = Some x) docs) = None"
  proof (rule ccontr)
    assume "collect n docs (filter (\<lambda>doc. parentId doc = Some x) docs) \<noteq> None"
    then obtain r where "collect n docs (filter (\<lambda>doc. parentId doc = Some x) docs) = Some r"
      by blast
    then have "\<exists>s. getDocumentsInFolder n docs (id' c) = Some s \<and> set s \<subseteq> set r"
      using mem folder by (rule collect_sub)
    with none show False by simp
  qed
  then show ?case by simp
qed

lemma getDocumentsInFolder_needs_acyclic:
  assumes "unique_ids docs" "parents_are_folders docs" "\<not> acyclic (parent_rel docs)"
  shows "\<exists>folderId. \<forall>n. getDocumentsInFolder n docs folderId = None"
proof -
  from assms(3) obtain x where "(x, x) \<in> (parent_rel docs)\<^sup>+"
    by (auto simp: acyclic_def)
  with assms(1,2) have "\<forall>n. getDocumentsInFolder n docs x = None"
    by (simp add: getDocumentsInFolder_on_cycle)
  then show ?thesis by blast
qed

lemma parent_rel_example:
  "parent_rel example_docs \<subseteq> {(''A'', ''F''), (''G'', ''F''), (''B'', ''G'')}"
  by (auto simp: parent_rel_def example_docs_def folderF_def fileA_def folderG_def fileB_def)

lemma forest_example: "forest example_docs"
proof -
  have "acyclic (parent_rel example_docs)"
  proof (rule acyclicI_order)
    fix a b
    assume "(a, b) \<in> parent_rel example_docs"
    then show "(if b = ''F'' then 0 else if b = ''G'' then 1 else (2::nat))
               < (if a = ''F'' then 0 else if a = ''G'' then 1 else 2)"
      using parent_rel_example by auto
  qed
  then show ?thesis
    by (simp add: forest_def unique_ids_def parents_are_folders_def example_docs_def
        folderF_def fileA_def folderG_def fileB_def)
qed

lemma acyclic_example: "acyclic (parent_rel example_docs)"
  using forest_example by (simp add: forest_def)

theorem getDocumentsInFolder_forest_witness:
  "acyclic (parent_rel example_docs) \<and> forest example_docs \<and>
   (\<exists>n r. (\<forall>m \<ge> n. getDocumentsInFolder m example_docs ''F'' = Some r)
      \<and> set r = descendants example_docs ''F'')"
  using getDocumentsInFolder_forest [OF acyclic_example, of "''F''"] forest_example
    acyclic_example by blast

lemma example_scan:
  "getDocumentsInFolder 3 example_docs ''F'' = Some [fileA, folderG, fileB]"
  by (simp add: numeral_3_eq_3 example_docs_def folderF_def fileA_def folderG_def fileB_def)

lemma cyclic_scan_diverges:
  "getDocumentsInFolder n cyclic_docs ''P'' = None \<and> getDocumentsInFolder n cyclic_docs ''Q'' = None"
  by (induction n) (simp_all add: cyclic_docs_def)


section \<open>Properties of a toggle\<close>

lemma subscribeDocument_issue_Some:
  "subscribeDocument_issue depth conn docs document = Some issued \<longleftrightarrow>
     (\<exists>ids. documentsToUpdate depth docs document = Some ids \<and>
        issued = [SetIsSubscribing True,
                  SetDocuments (newDocuments docs ids (\<not> isSubscribed document)),
                  Fetch (subscribe_url conn) ids (\<not> isSubscribed document)])"
  by (auto simp: subscribeDocument_issue_def Let_def split: option.splits)

lemma subscribeDocument_Some:
  "subscribeDocument depth conn docs document outcome = Some effects \<longleftrightarrow>
     (\<exists>issued. subscribeDocument_issue depth conn docs document = Some issued \<and>
        effects = issued @ subscribeDocument_settle docs outcome)"
  by (auto simp: subscribeDocument_def split: option.splits)

lemma documents_run_settle:
  "documents (run (subscribeDocument_settle cur outcome) s) =
     (if outcome = Response True then documents s else cur)"
  by (cases outcome) (simp_all add: subscribeDocument_settle_def run_def)

lemma run_append: "run (xs @ ys) s = run ys (run xs s)"
  by (simp add: run_def)

lemma documents_run_issue:
  "documents (run [SetIsSubscribing b, SetDocuments new, Fetch url ids v] s) = new"
  by (simp add: run_def)

lemma id_documentsToUpdate:
  "documentsToUpdate depth docs document = Some ids \<Longrightarrow> id' document \<in> set ids"
  by (auto simp: documentsToUpdate_def split: if_splits option.splits)

lemma length_newDocuments: "length (newDocuments docs ids v) = length docs"
  by (simp add: newDocuments_def)

lemma nth_newDocuments:
  "i < length docs \<Longrightarrow>
     newDocuments docs ids v ! i =
       (if id' (docs ! i) \<in> set ids then (docs ! i)\<lparr>isSubscribed := v\<rparr> else docs ! i)"
  by (simp add: newDocuments_def)

text \<open>
  Claim C2. When the persistence step fails, by a response that is not \<open>ok\<close> or by
  an exception, the document list after the toggle is the list the toggle started
  from.
\<close>

theorem subscribeDocument_rollback:
  assumes "subscribeDocument depth conn (documents s) document outcome = Some effects"
    and "outcome \<noteq> Response True"
  shows "documents (run effects s) = documents s"
proof -
  from assms(1) obtain issued where
    "effects = issued @ subscribeDocument_settle (documents s) outcome"
    by (auto simp: subscribeDocument_Some)
  with assms(2) show ?thesis
    by (simp add: run_append documents_run_settle)
qed

lemma folderF_sel:
  "id' folderF = ''F''" "canHaveChildren folderF" "\<not> isSubscribed folderF"
  by (simp_all add: folderF_def)

lemma example_toggle_F:
  "documentsToUpdate 3 example_docs folderF = Some [''F'', ''A'', ''G'', ''B'']"
  by (simp add: documentsToUpdate_def numeral_3_eq_3 example_docs_def folderF_def fileA_def
      folderG_def fileB_def)

theorem subscribeDocument_rollback_witness:
  "subscribeDocument 3 (Some ''c1'') (documents example_picker) folderF (Rejected ''TypeError'')
     = Some [SetIsSubscribing True,
         SetDocuments (newDocuments example_docs [''F'', ''A'', ''G'', ''B''] True),
         Fetch ''/api/integrations/c1/documents/subscribe'' [''F'', ''A'', ''G'', ''B''] True,
         SetDocuments example_docs,
         ToastError ''Failed to update subscription: TypeError'',
         SetIsSubscribing False]
   \<and> Rejected ''TypeError'' \<noteq> Response True
   \<and> documents (run [SetIsSubscribing True,
         SetDocuments (newDocuments example_docs [''F'', ''A'', ''G'', ''B''] True),
         Fetch ''/api/integrations/c1/documents/subscribe'' [''F'', ''A'', ''G'', ''B''] True,
         SetDocuments example_docs,
         ToastError ''Failed to update subscription: TypeError'',
         SetIsSubscribing False] example_picker) = documents example_picker"
proof -
  have effs: "subscribeDocument 3 (Some ''c1'') (documents example_picker) folderF (Rejected ''TypeError'')
     = Some [SetIsSubscribing True,
         SetDocuments (newDocuments example_docs [''F'', ''A'', ''G'', ''B''] True),
         Fetch ''/api/integrations/c1/documents/subscribe'' [''F'', ''A'', ''G'', ''B''] True,
         SetDocuments example_docs,
         ToastError ''Failed to update subscription: TypeError'',
         SetIsSubscribing False]"
    by (simp add: subscribeDocument_def subscribeDocument_issue_def subscribeDocument_settle_def
        example_toggle_F example_picker_def subscribe_url_def folderF_sel)
  have neq: "Rejected ''TypeError'' \<noteq> Response True"
    by simp
  from subscribeDocument_rollback [OF effs neq] effs neq show ?thesis
    by simp
qed


text \<open>
  Claim C5. The value written by a toggle of \<open>n\<close> is the negation of the flag of
  \<open>n\<close> as the handler received it: the request carries it, and in the store after
  the optimistic write every document whose identifier is in \<open>documentsToUpdate\<close> has
  it, whatever its own flag was.
\<close>

theorem subscribeDocument_target_value:
  assumes "subscribeDocument_issue depth conn (documents s) document = Some issued"
  shows "\<exists>ids. documentsToUpdate depth (documents s) document = Some ids
           \<and> Fetch (subscribe_url conn) ids (\<not> isSubscribed document) \<in> set issued
           \<and> length (documents (run issued s)) = length (documents s)
           \<and> (\<forall>i < length (documents s). id' (documents s ! i) \<in> set ids \<longrightarrow>
                 isSubscribed (documents (run issued s) ! i) = (\<not> isSubscribed document))"
proof -
  from assms obtain ids where
    ids: "documentsToUpdate depth (documents s) document = Some ids" and
    issued: "issued = [SetIsSubscribing True,
                  SetDocuments (newDocuments (documents s) ids (\<not> isSubscribed document)),
                  Fetch (subscribe_url conn) ids (\<not> isSubscribed document)]"
    by (auto simp: subscribeDocument_issue_Some)
  have "documents (run issued s) = newDocuments (documents s) ids (\<not> isSubscribed document)"
    unfolding issued by (rule documents_run_issue)
  then have "length (documents (run issued s)) = length (documents s)"
    and "\<forall>i < length (documents s). id' (documents s ! i) \<in> set ids \<longrightarrow>
           isSubscribed (documents (run issued s) ! i) = (\<not> isSubscribed document)"
    by (simp_all add: length_newDocuments nth_newDocuments)
  moreover have "Fetch (subscribe_url conn) ids (\<not> isSubscribed document) \<in> set issued"
    by (simp add: issued)
  ultimately show ?thesis
    using ids by blast
qed

lemma example_issue_F:
  "subscribeDocument_issue 3 (Some ''c1'') (documents example_picker) folderF =
     Some [SetIsSubscribing True,
       SetDocuments (newDocuments example_docs [''F'', ''A'', ''G'', ''B''] True),
       Fetch ''/api/integrations/c1/documents/subscribe'' [''F'', ''A'', ''G'', ''B''] True]"
  by (simp add: subscribeDocument_issue_def example_toggle_F example_picker_def subscribe_url_def
      folderF_sel)

theorem subscribeDocument_target_value_witness:
  "\<exists>ids. documentsToUpdate 3 (documents example_picker) folderF = Some ids
     \<and> Fetch (subscribe_url (Some ''c1'')) ids (\<not> isSubscribed folderF)
         \<in> set [SetIsSubscribing True,
               SetDocuments (newDocuments example_docs [''F'', ''A'', ''G'', ''B''] True),
               Fetch ''/api/integrations/c1/documents/subscribe'' [''F'', ''A'', ''G'', ''B''] True]
     \<and> length (documents (run [SetIsSubscribing True,
               SetDocuments (newDocuments example_docs [''F'', ''A'', ''G'', ''B''] True),
               Fetch ''/api/integrations/c1/documents/subscribe'' [''F'', ''A'', ''G'', ''B''] True]
             example_picker)) = length (documents example_picker)
     \<and> (\<forall>i < length (documents example_picker).
           id' (documents example_picker ! i) \<in> set ids \<longrightarrow>
           isSubscribed (documents (run [SetIsSubscribing True,
               SetDocuments (newDocuments example_docs [''F'', ''A'', ''G'', ''B''] True),
               Fetch ''/api/integrations/c1/documents/subscribe'' [''F'', ''A'', ''G'', ''B''] True]
             example_picker) ! i) = (\<not> isSubscribed folderF))"
  using subscribeDocument_target_value [OF example_issue_F] .

lemma only_fetch_split:
  assumes "filter is_fetch before = []" "filter is_fetch after = []" "is_fetch x" "is_fetch y"
  shows "before @ x # after = pre @ y # post \<Longrightarrow> pre = before \<and> y = x \<and> post = after"
  using assms(1)
proof (induction before arbitrary: pre)
  case Nil
  show ?case
  proof (cases pre)
    case Nil
    with Nil.prems show ?thesis by simp
  next
    case (Cons p pre')
    with Nil.prems(1) have "y \<in> set after" by auto
    with assms(2,4) show ?thesis
      by (auto simp: filter_empty_conv)
  qed
next
  case (Cons a before)
  from Cons.prems(2) have a: "\<not> is_fetch a" and rest: "filter is_fetch before = []"
    by (auto split: if_splits)
  show ?case
  proof (cases pre)
    case Nil
    with Cons.prems(1) have "a = y" by simp
    with a assms(4) show ?thesis by simp
  next
    case (Cons p pre')
    with Cons.prems(1) have "p = a" "before @ x # after = pre' @ y # post"
      by simp_all
    with Cons.IH [OF _ rest] Cons show ?thesis
      by simp
  qed
qed

lemma settle_writes_back:
  "SetDocuments ds \<in> set (subscribeDocument_settle cur outcome) \<Longrightarrow> ds = cur"
  by (cases outcome) (auto simp: subscribeDocument_settle_def split: if_splits)

lemma settle_no_fetch: "filter is_fetch (subscribeDocument_settle cur outcome) = []"
  by (cases outcome) (simp_all add: subscribeDocument_settle_def)

text \<open>
  Claim C7. The effects of one toggle hold one request. What precedes it holds no
  request and ends with the write of the new list, so that the store at the moment the
  request is issued has the new flag at every document the request names and the old
  document everywhere else. What follows the request holds no request, and the only
  write it can hold puts the old list back. The order is the order of the handler's
  calls.
\<close>

theorem optimistic_write_before_fetch:
  assumes "subscribeDocument depth conn (documents s) document outcome = Some effects"
  shows "\<exists>ids pre post.
           documentsToUpdate depth (documents s) document = Some ids
           \<and> effects = pre @ Fetch (subscribe_url conn) ids (\<not> isSubscribed document) # post
           \<and> filter is_fetch pre = [] \<and> filter is_fetch post = []
           \<and> (\<forall>pre' url ids' v post'. effects = pre' @ Fetch url ids' v # post' \<longrightarrow> pre' = pre)
           \<and> (\<exists>before. pre = before @ [SetDocuments (documents (run pre s))])
           \<and> length (documents (run pre s)) = length (documents s)
           \<and> (\<forall>i < length (documents s).
                 documents (run pre s) ! i =
                   (if id' (documents s ! i) \<in> set ids
                    then (documents s ! i)\<lparr>isSubscribed := \<not> isSubscribed document\<rparr>
                    else documents s ! i))
           \<and> (\<forall>ds. SetDocuments ds \<in> set post \<longrightarrow> ds = documents s)"
proof -
  let ?docs = "documents s"
  let ?v = "\<not> isSubscribed document"
  from assms obtain ids where
    ids: "documentsToUpdate depth ?docs document = Some ids" and
    effects: "effects = [SetIsSubscribing True, SetDocuments (newDocuments ?docs ids ?v)]
       @ Fetch (subscribe_url conn) ids ?v # subscribeDocument_settle ?docs outcome"
    by (auto simp: subscribeDocument_Some subscribeDocument_issue_Some)
  let ?pre = "[SetIsSubscribing True, SetDocuments (newDocuments ?docs ids ?v)]"
  let ?post = "subscribeDocument_settle ?docs outcome"
  have pre: "filter is_fetch ?pre = []"
    by simp
  have post: "filter is_fetch ?post = []"
    by (rule settle_no_fetch)
  have store: "documents (run ?pre s) = newDocuments ?docs ids ?v"
    by (simp add: run_def)
  have uniq: "\<forall>pre' url ids' v post'. effects = pre' @ Fetch url ids' v # post' \<longrightarrow> pre' = ?pre"
  proof (intro allI impI)
    fix pre' url ids' v post'
    assume "effects = pre' @ Fetch url ids' v # post'"
    with effects have
      "?pre @ Fetch (subscribe_url conn) ids ?v # ?post = pre' @ Fetch url ids' v # post'"
      by simp
    with only_fetch_split [OF pre post, of "Fetch (subscribe_url conn) ids ?v" "Fetch url ids' v" pre' post']
    show "pre' = ?pre"
      by simp
  qed
  have lastw: "\<exists>before. ?pre = before @ [SetDocuments (documents (run ?pre s))]"
    using store by simp
  have len: "length (documents (run ?pre s)) = length ?docs"
    by (simp add: store length_newDocuments)
  have nth: "\<forall>i < length ?docs.
      documents (run ?pre s) ! i =
        (if id' (?docs ! i) \<in> set ids then (?docs ! i)\<lparr>isSubscribed := ?v\<rparr> else ?docs ! i)"
    by (simp add: store nth_newDocuments)
  have restore: "\<forall>ds. SetDocuments ds \<in> set ?post \<longrightarrow> ds = ?docs"
    using settle_writes_back by blast
  from ids effects pre post uniq lastw len nth restore show ?thesis
    by blast
qed


lemma example_subscribe_ok:
  "subscribeDocument 3 (Some ''c1'') (documents example_picker) folderF (Response True) =
     Some (example_issued_F @ [SetIsSubscribing False])"
  using example_issue_F
  by (simp add: subscribeDocument_def subscribeDocument_settle_def example_issued_F_def)

theorem optimistic_write_before_fetch_witness:
  "subscribeDocument 3 (Some ''c1'') (documents example_picker) folderF (Response True) =
     Some (example_issued_F @ [SetIsSubscribing False]) \<and>
   documents (run [SetIsSubscribing True,
       SetDocuments (newDocuments example_docs [''F'', ''A'', ''G'', ''B''] True)] example_picker)
     = documents example_after_F \<and>
   (\<exists>ids pre post.
      documentsToUpdate 3 (documents example_picker) folderF = Some ids
      \<and> example_issued_F @ [SetIsSubscribing False]
          = pre @ Fetch (subscribe_url (Some ''c1'')) ids (\<not> isSubscribed folderF) # post
      \<and> filter is_fetch pre = [] \<and> filter is_fetch post = []
      \<and> (\<forall>pre' url ids' v post'.
            example_issued_F @ [SetIsSubscribing False] = pre' @ Fetch url ids' v # post'
            \<longrightarrow> pre' = pre)
      \<and> (\<exists>before. pre = before @ [SetDocuments (documents (run pre example_picker))])
      \<and> length (documents (run pre example_picker)) = length (documents example_picker)
      \<and> (\<forall>i < length (documents example_picker).
            documents (run pre example_picker) ! i =
              (if id' (documents example_picker ! i) \<in> set ids
               then (documents example_picker ! i)\<lparr>isSubscribed := \<not> isSubscribed folderF\<rparr>
               else documents example_picker ! i))
      \<and> (\<forall>ds. SetDocuments ds \<in> set post \<longrightarrow> ds = documents example_picker))"
proof -
  have store: "documents (run [SetIsSubscribing True,
       SetDocuments (newDocuments example_docs [''F'', ''A'', ''G'', ''B''] True)] example_picker)
     = documents example_after_F"
    by (simp add: run_def newDocuments_def example_after_F_def example_docs_def folderF_def
        fileA_def folderG_def fileB_def)
  from optimistic_write_before_fetch [OF example_subscribe_ok] example_subscribe_ok store
  show ?thesis
    by blast
qed

lemma newDocuments_frame:
  assumes "i < length docs"
  shows "id' (newDocuments docs ids v ! i) = id' (docs ! i)"
    and "parentId (newDocuments docs ids v ! i) = parentId (docs ! i)"
    and "title (newDocuments docs ids v ! i) = title (docs ! i)"
    and "canHaveChildren (newDocuments docs ids v ! i) = canHaveChildren (docs ! i)"
    and "storageKey (newDocuments docs ids v ! i) = storageKey (docs ! i)"
  using assms by (simp_all add: nth_newDocuments)

text \<open>
  Claim C9. The store after the optimistic write, and the store after the whole toggle
  (written back or not), hold as many documents as before, and the document at each
  position has the \<open>id\<close>, \<open>parentId\<close>, \<open>title\<close>, \<open>canHaveChildren\<close> and
  \<open>storageKey\<close> it had: only \<open>isSubscribed\<close> can differ.
\<close>

theorem toggle_frame:
  assumes "subscribeDocument_issue depth conn (documents s) document = Some issued"
    and "s' = run issued s \<or> s' = run (issued @ subscribeDocument_settle (documents s) outcome) s"
  shows "length (documents s') = length (documents s) \<and>
         (\<forall>i < length (documents s).
            id' (documents s' ! i) = id' (documents s ! i) \<and>
            parentId (documents s' ! i) = parentId (documents s ! i) \<and>
            title (documents s' ! i) = title (documents s ! i) \<and>
            canHaveChildren (documents s' ! i) = canHaveChildren (documents s ! i) \<and>
            storageKey (documents s' ! i) = storageKey (documents s ! i))"
proof -
  from assms(1) obtain ids where
    issued: "issued = [SetIsSubscribing True,
                  SetDocuments (newDocuments (documents s) ids (\<not> isSubscribed document)),
                  Fetch (subscribe_url conn) ids (\<not> isSubscribed document)]"
    by (auto simp: subscribeDocument_issue_Some)
  have opt: "documents (run issued s) = newDocuments (documents s) ids (\<not> isSubscribed document)"
    unfolding issued by (rule documents_run_issue)
  have "documents s' = newDocuments (documents s) ids (\<not> isSubscribed document)
        \<or> documents s' = documents s"
    using assms(2) opt by (auto simp: run_append documents_run_settle)
  then show ?thesis
  proof
    assume "documents s' = newDocuments (documents s) ids (\<not> isSubscribed document)"
    then show ?thesis
      by (simp add: length_newDocuments newDocuments_frame)
  next
    assume "documents s' = documents s"
    then show ?thesis by simp
  qed
qed

theorem toggle_frame_witness:
  "subscribeDocument_issue 3 (Some ''c1'') (documents example_picker) folderF
     = Some example_issued_F \<and>
   length (documents (run example_issued_F example_picker)) = length (documents example_picker) \<and>
   1 < length (documents example_picker) \<and>
   id' (documents (run example_issued_F example_picker) ! 1) = id' (documents example_picker ! 1) \<and>
   parentId (documents (run example_issued_F example_picker) ! 1)
     = parentId (documents example_picker ! 1) \<and>
   title (documents (run example_issued_F example_picker) ! 1)
     = title (documents example_picker ! 1) \<and>
   canHaveChildren (documents (run example_issued_F example_picker) ! 1)
     = canHaveChildren (documents example_picker ! 1) \<and>
   storageKey (documents (run example_issued_F example_picker) ! 1)
     = storageKey (documents example_picker ! 1)"
proof -
  have issue: "subscribeDocument_issue 3 (Some ''c1'') (documents example_picker) folderF
      = Some example_issued_F"
    using example_issue_F by (simp add: example_issued_F_def)
  have one: "1 < length (documents example_picker)"
    by (simp add: example_picker_def example_docs_def)
  from toggle_frame [OF issue, of "run example_issued_F example_picker" "Response True"]
    issue one
  show ?thesis
    by blast
qed

text \<open>
  Claim C4, at a response that is not \<open>ok\<close>: the toggle of folder \<open>F\<close> writes the
  old list back and lowers the flag. It issues one request and no other, and it raises
  no toast; only the \<open>catch\<close> branch raises one.
\<close>

theorem subscribeDocument_not_ok_no_toast:
  "subscribeDocument 3 (Some ''c1'') example_docs folderF (Response False) =
     Some [SetIsSubscribing True,
       SetDocuments (newDocuments example_docs [''F'', ''A'', ''G'', ''B''] True),
       Fetch ''/api/integrations/c1/documents/subscribe'' [''F'', ''A'', ''G'', ''B''] True,
       SetDocuments example_docs,
       SetIsSubscribing False]
   \<and> filter is_toast (the (subscribeDocument 3 (Some ''c1'') example_docs folderF (Response False)))
       = []"
  using example_issue_F
  by (simp add: subscribeDocument_def subscribeDocument_settle_def example_picker_def)

lemma subscribeDocument_settle_toast:
  "filter is_toast (subscribeDocument_settle cur outcome) =
     (case outcome of
        Response ok \<Rightarrow> []
      | Rejected error \<Rightarrow> [ToastError (''Failed to update subscription: '' @ error)])"
  by (cases outcome) (simp_all add: subscribeDocument_settle_def)

section \<open>Properties of resync\<close>

text \<open>
  Claim C6. After \<open>reSync\<close> the store holds no document, whatever it held before;
  emptying the store is the first effect, and with a connection id that is present (and
  not empty) the only other effect is the call that starts a sync for it.
\<close>

theorem reSync_clears_store:
  "documents (run (reSync conn) s) = [] \<and>
   (\<forall>c. conn = Some c \<and> c \<noteq> [] \<longrightarrow> reSync conn = [SetDocuments [], HandleStartSync c])"
  by (auto simp: reSync_def run_def split: option.splits)

theorem reSync_clears_store_witness:
  "documents example_picker \<noteq> [] \<and>
   documents (run (reSync (Some ''c1'')) example_picker) = [] \<and>
   reSync (Some ''c1'') = [SetDocuments [], HandleStartSync ''c1'']"
proof -
  have "documents example_picker \<noteq> []"
    by (simp add: example_picker_def example_docs_def)
  moreover have "Some ''c1'' = Some ''c1'' \<and> ''c1'' \<noteq> []"
    by simp
  ultimately show ?thesis
    using reSync_clears_store [of "Some ''c1''" example_picker] by blast
qed


section \<open>The set a toggle reaches\<close>

lemma affected_subset: "document \<in> set docs \<Longrightarrow> affected docs document \<subseteq> set docs"
  by (auto simp: affected_def descendants_def descendant_in_docs)

lemma in_ids_iff_affected:
  assumes "forest docs" "document \<in> set docs" "d \<in> set docs"
    and ids: "documentsToUpdate depth docs document = Some ids"
  shows "id' d \<in> set ids \<longleftrightarrow> d \<in> affected docs document"
proof -
  from assms(1) have dist: "unique_ids docs"
    by (simp add: forest_def)
  have same: "id' d = id' document \<longleftrightarrow> d = document"
    using unique_ids_eq [OF dist assms(3) assms(2)] by auto
  show ?thesis
  proof (cases "canHaveChildren document")
    case False
    with ids have "ids = [id' document]"
      by (simp add: documentsToUpdate_def)
    with False same show ?thesis
      by (simp add: affected_def)
  next
    case True
    with ids obtain r where
      r: "getDocumentsInFolder depth docs (id' document) = Some r" and
      ids_eq: "ids = id' document # map id' r"
      by (auto simp: documentsToUpdate_def split: option.splits)
    from assms(1) r have set_r: "set r = descendants docs (id' document)"
      by (rule getDocumentsInFolder_result)
    have "id' d \<in> id' ` set r \<longleftrightarrow> d \<in> set r"
    proof
      assume "id' d \<in> id' ` set r"
      then obtain e where e: "e \<in> set r" "id' e = id' d"
        by auto
      from e(1) set_r have "e \<in> set docs"
        by (simp add: descendants_def descendant_in_docs)
      with dist have "e = d"
        using assms(3) e(2) by (rule unique_ids_eq)
      with e(1) show "d \<in> set r" by simp
    qed simp
    with True same ids_eq set_r show ?thesis
      by (simp add: affected_def)
  qed
qed

lemma changed_map:
  "changed docs (map g docs) = {d \<in> set docs. isSubscribed (g d) \<noteq> isSubscribed d}"
  by (induction docs) (auto simp: changed_def)

text \<open>
  Claim C1, as amended. On a forest a toggle of a document \<open>n\<close> of the list returns
  from some depth of the call stack on, and its optimistic write gives the flag
  \<open>\<not> isSubscribed n\<close> to every node of \<open>affected\<close>, that is \<open>n\<close> and, when \<open>n\<close>
  can have children, its descendants, and leaves every other node as it was. The nodes
  whose flag changes are the nodes of that set whose flag was the flag of \<open>n\<close>.
\<close>

theorem toggle_affected_set:
  assumes "forest (documents s)" and "n \<in> set (documents s)"
  shows "\<exists>depth issued.
           (\<forall>m \<ge> depth. subscribeDocument_issue m conn (documents s) n = Some issued)
           \<and> documents (run issued s) =
               map (\<lambda>d. if d \<in> affected (documents s) n
                        then d\<lparr>isSubscribed := \<not> isSubscribed n\<rparr> else d) (documents s)
           \<and> changed (documents s) (documents (run issued s)) =
               {d \<in> affected (documents s) n. isSubscribed d = isSubscribed n}"
proof -
  let ?docs = "documents s"
  let ?g = "\<lambda>d. if d \<in> affected ?docs n then d\<lparr>isSubscribed := \<not> isSubscribed n\<rparr> else d"
  from assms(1) obtain depth r where
    r: "\<forall>m \<ge> depth. getDocumentsInFolder m ?docs (id' n) = Some r"
    using getDocumentsInFolder_returns_descendants by blast
  define ids where "ids = (if canHaveChildren n then id' n # map id' r else [id' n])"
  have ids: "documentsToUpdate m ?docs n = Some ids" if "m \<ge> depth" for m
    using r that by (simp add: documentsToUpdate_def ids_def)
  define issued where "issued = [SetIsSubscribing True,
      SetDocuments (newDocuments ?docs ids (\<not> isSubscribed n)),
      Fetch (subscribe_url conn) ids (\<not> isSubscribed n)]"
  have 1: "\<forall>m \<ge> depth. subscribeDocument_issue m conn ?docs n = Some issued"
    using ids by (simp add: subscribeDocument_issue_Some issued_def)
  have "newDocuments ?docs ids (\<not> isSubscribed n) = map ?g ?docs"
    unfolding newDocuments_def
  proof (rule map_cong [OF refl])
    fix d
    assume "d \<in> set ?docs"
    with assms have "id' d \<in> set ids \<longleftrightarrow> d \<in> affected ?docs n"
      using ids [of depth] by (simp add: in_ids_iff_affected)
    then show "(if id' d \<in> set ids then d\<lparr>isSubscribed := \<not> isSubscribed n\<rparr> else d) = ?g d"
      by simp
  qed
  then have 2: "documents (run issued s) = map ?g ?docs"
    by (simp add: issued_def documents_run_issue)
  have "changed ?docs (map ?g ?docs) = {d \<in> set ?docs. isSubscribed (?g d) \<noteq> isSubscribed d}"
    by (rule changed_map)
  also have "\<dots> = {d \<in> affected ?docs n. isSubscribed d = isSubscribed n}"
    using affected_subset [OF assms(2)] by auto
  finally have 3: "changed ?docs (documents (run issued s)) =
      {d \<in> affected ?docs n. isSubscribed d = isSubscribed n}"
    using 2 by simp
  from 1 2 3 show ?thesis by blast
qed

lemma example_picker_documents: "documents example_picker = example_docs"
  by (simp add: example_picker_def)

lemma folderF_in_example: "folderF \<in> set example_docs"
  by (simp add: example_docs_def)

theorem toggle_affected_set_witness:
  "forest (documents example_picker) \<and> folderF \<in> set (documents example_picker) \<and>
   (\<exists>depth issued.
      (\<forall>m \<ge> depth. subscribeDocument_issue m (Some ''c1'') (documents example_picker) folderF
         = Some issued)
      \<and> documents (run issued example_picker) =
          map (\<lambda>d. if d \<in> affected (documents example_picker) folderF
                   then d\<lparr>isSubscribed := \<not> isSubscribed folderF\<rparr> else d)
            (documents example_picker)
      \<and> changed (documents example_picker) (documents (run issued example_picker)) =
          {d \<in> affected (documents example_picker) folderF. isSubscribed d = isSubscribed folderF})"
proof -
  have f: "forest (documents example_picker)"
    by (simp add: example_picker_documents forest_example)
  have n: "folderF \<in> set (documents example_picker)"
    by (simp add: example_picker_documents folderF_in_example)
  from toggle_affected_set [OF f n, of "Some ''c1''"] f n show ?thesis
    by blast
qed

lemma example_newDocuments_F:
  "newDocuments example_docs [''F'', ''A'', ''G'', ''B''] True =
     [folderF\<lparr>isSubscribed := True\<rparr>, fileA, folderG\<lparr>isSubscribed := True\<rparr>,
      fileB\<lparr>isSubscribed := True\<rparr>]"
  by (simp add: newDocuments_def example_docs_def folderF_def fileA_def folderG_def fileB_def)

lemma fileA_affected: "fileA \<in> affected example_docs folderF"
proof -
  have "descendant example_docs ''F'' fileA"
    by (rule descendant.child) (simp_all add: example_docs_def fileA_def)
  then show ?thesis
    by (simp add: affected_def descendants_def folderF_sel)
qed

lemma fileA_not_changed:
  "fileA \<notin> changed example_docs (newDocuments example_docs [''F'', ''A'', ''G'', ''B''] True)"
  unfolding example_newDocuments_F
  by (simp add: changed_def example_docs_def folderF_def fileA_def folderG_def fileB_def)

text \<open>
  Claim C1 as stated fails where a descendant already has the target value: in the
  example tree file \<open>A\<close> is subscribed and folder \<open>F\<close> is not, so the toggle of
  \<open>F\<close> leaves the flag of \<open>A\<close> as it was, and the set of changed nodes is not
  \<open>F\<close> with its descendants.
\<close>

theorem toggle_changed_set_counterexample:
  "forest example_docs \<and> folderF \<in> set example_docs \<and>
   subscribeDocument_issue 3 (Some ''c1'') (documents example_picker) folderF =
     Some [SetIsSubscribing True,
       SetDocuments (newDocuments example_docs [''F'', ''A'', ''G'', ''B''] True),
       Fetch ''/api/integrations/c1/documents/subscribe'' [''F'', ''A'', ''G'', ''B''] True] \<and>
   changed example_docs
     (documents (run [SetIsSubscribing True,
        SetDocuments (newDocuments example_docs [''F'', ''A'', ''G'', ''B''] True),
        Fetch ''/api/integrations/c1/documents/subscribe'' [''F'', ''A'', ''G'', ''B''] True]
       example_picker))
     \<noteq> affected example_docs folderF"
proof -
  have "changed example_docs (newDocuments example_docs [''F'', ''A'', ''G'', ''B''] True)
          \<noteq> affected example_docs folderF"
    using fileA_affected fileA_not_changed by blast
  then show ?thesis
    using forest_example folderF_in_example example_issue_F
    by (simp add: documents_run_issue)
qed


section \<open>Toggling twice\<close>

lemma getDocumentsInFolder_collect_map:
  assumes g: "\<And>d. id' (g d) = id' d" "\<And>d. parentId (g d) = parentId d"
    "\<And>d. canHaveChildren (g d) = canHaveChildren d"
  shows "getDocumentsInFolder n (map g docs) f = map_option (map g) (getDocumentsInFolder n docs f)"
    and "collect n (map g docs) (map g cs) = map_option (map g) (collect n docs cs)"
proof (induction n docs f and n docs cs rule: getDocumentsInFolder_collect.induct)
  case (1 docs folderId)
  show ?case by simp
next
  case (2 depth docs folderId)
  have "filter (\<lambda>doc. parentId doc = Some folderId) (map g docs) =
        map g (filter (\<lambda>doc. parentId doc = Some folderId) docs)"
    by (simp add: filter_map o_def g)
  with 2 show ?case by simp
next
  case (3 depth docs)
  show ?case by simp
next
  case (4 depth docs child children)
  then show ?case
    by (cases "canHaveChildren child") (simp_all add: g split: option.splits)
qed

lemma documentsToUpdate_newDocuments:
  "documentsToUpdate depth (newDocuments docs ids v) (document\<lparr>isSubscribed := w\<rparr>) =
     documentsToUpdate depth docs document"
proof -
  let ?g = "\<lambda>doc. if id' doc \<in> set ids then doc\<lparr>isSubscribed := v\<rparr> else doc"
  have "getDocumentsInFolder depth (map ?g docs) (id' document) =
        map_option (map ?g) (getDocumentsInFolder depth docs (id' document))"
    by (rule getDocumentsInFolder_collect_map(1)) simp_all
  moreover have "map id' (map ?g r) = map id' r" for r :: "Document list"
    by simp
  ultimately show ?thesis
    by (simp add: documentsToUpdate_def newDocuments_def split: option.splits)
qed

lemma isSubscribed_update_same:
  "isSubscribed d = v \<Longrightarrow> d\<lparr>isSubscribed := v\<rparr> = d"
  by (cases d) simp

lemma newDocuments_twice:
  "newDocuments (newDocuments docs ids v) ids w = newDocuments docs ids w"
  by (simp add: newDocuments_def)

lemma toggle_Response_True:
  "toggle depth conn document (Response True) s = Some s' \<longleftrightarrow>
     (\<exists>ids. documentsToUpdate depth (documents s) document = Some ids \<and>
        s' = s\<lparr>documents := newDocuments (documents s) ids (\<not> isSubscribed document),
               isSubscribing := False\<rparr>)"
  by (auto simp: toggle_def subscribeDocument_def subscribeDocument_issue_def
      subscribeDocument_settle_def run_def Let_def split: option.splits)

text \<open>
  Claim C3, as amended. Let a toggle of a document \<open>n\<close> of the list succeed, and let
  the node that the list then shows for \<open>n\<close> be toggled with success. The second
  toggle returns and reaches the same identifiers as the first. After it every node
  with one of these identifiers has the flag \<open>n\<close> had before the first toggle, and
  every other node is as it was: \<open>n\<close>, and each reached node whose flag was that of
  \<open>n\<close>, is back at its own value.
\<close>

theorem toggle_twice:
  assumes "n \<in> set (documents s)"
    and "toggle depth conn n (Response True) s = Some s1"
  shows "\<exists>ids s2.
           documentsToUpdate depth (documents s) n = Some ids
           \<and> n\<lparr>isSubscribed := \<not> isSubscribed n\<rparr> \<in> set (documents s1)
           \<and> documentsToUpdate depth (documents s1) (n\<lparr>isSubscribed := \<not> isSubscribed n\<rparr>)
               = Some ids
           \<and> toggle depth conn (n\<lparr>isSubscribed := \<not> isSubscribed n\<rparr>) (Response True) s1
               = Some s2
           \<and> length (documents s2) = length (documents s)
           \<and> (\<forall>i < length (documents s).
                 (id' (documents s ! i) \<in> set ids \<longrightarrow>
                    isSubscribed (documents s2 ! i) = isSubscribed n) \<and>
                 ((id' (documents s ! i) \<in> set ids \<longrightarrow>
                     isSubscribed (documents s ! i) = isSubscribed n) \<longrightarrow>
                    documents s2 ! i = documents s ! i))"
proof -
  let ?n1 = "n\<lparr>isSubscribed := \<not> isSubscribed n\<rparr>"
  from assms(2) obtain ids where
    ids: "documentsToUpdate depth (documents s) n = Some ids" and
    s1: "s1 = s\<lparr>documents := newDocuments (documents s) ids (\<not> isSubscribed n),
                  isSubscribing := False\<rparr>"
    by (auto simp: toggle_Response_True)
  have docs1: "documents s1 = newDocuments (documents s) ids (\<not> isSubscribed n)"
    by (simp add: s1)
  from ids have "id' n \<in> set ids"
    by (rule id_documentsToUpdate)
  with assms(1) have in1: "?n1 \<in> set (documents s1)"
    by (force simp: docs1 newDocuments_def)
  have ids1: "documentsToUpdate depth (documents s1) ?n1 = Some ids"
    by (simp add: docs1 documentsToUpdate_newDocuments ids)
  define s2 where "s2 = s1\<lparr>documents := newDocuments (documents s1) ids (\<not> isSubscribed ?n1),
                  isSubscribing := False\<rparr>"
  have t2: "toggle depth conn ?n1 (Response True) s1 = Some s2"
    using ids1 by (simp add: toggle_Response_True s2_def)
  have docs2: "documents s2 = newDocuments (documents s) ids (isSubscribed n)"
    by (simp add: s2_def docs1 newDocuments_twice)
  have len: "length (documents s2) = length (documents s)"
    by (simp add: docs2 length_newDocuments)
  have "\<forall>i < length (documents s).
          (id' (documents s ! i) \<in> set ids \<longrightarrow>
             isSubscribed (documents s2 ! i) = isSubscribed n) \<and>
          ((id' (documents s ! i) \<in> set ids \<longrightarrow>
              isSubscribed (documents s ! i) = isSubscribed n) \<longrightarrow>
             documents s2 ! i = documents s ! i)"
    by (auto simp: docs2 nth_newDocuments isSubscribed_update_same)
  with ids in1 ids1 t2 len show ?thesis
    by blast
qed


lemma example_toggle_once:
  "toggle 3 (Some ''c1'') folderF (Response True) example_picker = Some example_after_F"
  by (simp add: toggle_Response_True example_picker_def example_toggle_F folderF_sel
      example_newDocuments_F example_after_F_def)

theorem toggle_twice_witness:
  "folderF \<in> set (documents example_picker) \<and>
   toggle 3 (Some ''c1'') folderF (Response True) example_picker = Some example_after_F \<and>
   (\<exists>ids s2.
      documentsToUpdate 3 (documents example_picker) folderF = Some ids
      \<and> folderF\<lparr>isSubscribed := \<not> isSubscribed folderF\<rparr> \<in> set (documents example_after_F)
      \<and> documentsToUpdate 3 (documents example_after_F)
            (folderF\<lparr>isSubscribed := \<not> isSubscribed folderF\<rparr>) = Some ids
      \<and> toggle 3 (Some ''c1'') (folderF\<lparr>isSubscribed := \<not> isSubscribed folderF\<rparr>)
            (Response True) example_after_F = Some s2
      \<and> length (documents s2) = length (documents example_picker)
      \<and> (\<forall>i < length (documents example_picker).
            (id' (documents example_picker ! i) \<in> set ids \<longrightarrow>
               isSubscribed (documents s2 ! i) = isSubscribed folderF) \<and>
            ((id' (documents example_picker ! i) \<in> set ids \<longrightarrow>
                isSubscribed (documents example_picker ! i) = isSubscribed folderF) \<longrightarrow>
               documents s2 ! i = documents example_picker ! i)))"
proof -
  have n: "folderF \<in> set (documents example_picker)"
    by (simp add: example_picker_documents folderF_in_example)
  from toggle_twice [OF n example_toggle_once] n example_toggle_once show ?thesis
    by blast
qed

text \<open>
  Claim C3 as stated fails on the example tree: file \<open>A\<close> is reached by the toggle of
  folder \<open>F\<close> and is subscribed before it; after the toggle of \<open>F\<close> and the toggle
  of the node the list then shows for \<open>F\<close>, both with success, \<open>A\<close> is not
  subscribed.
\<close>

theorem toggle_twice_counterexample:
  "documents example_picker = [folderF, fileA, folderG, fileB] \<and>
   isSubscribed fileA \<and>
   documentsToUpdate 3 (documents example_picker) folderF = Some [''F'', ''A'', ''G'', ''B''] \<and>
   toggle 3 (Some ''c1'') folderF (Response True) example_picker = Some example_after_F \<and>
   documents example_after_F ! 0 = folderF\<lparr>isSubscribed := True\<rparr> \<and>
   toggle 3 (Some ''c1'') (folderF\<lparr>isSubscribed := True\<rparr>) (Response True) example_after_F =
     Some \<lparr>documents = [folderF, fileA\<lparr>isSubscribed := False\<rparr>, folderG, fileB],
            isSubscribing = False\<rparr> \<and>
   \<not> isSubscribed (fileA\<lparr>isSubscribed := False\<rparr>)"
proof -
  have ids: "documentsToUpdate 3 (documents example_after_F) (folderF\<lparr>isSubscribed := True\<rparr>)
      = Some [''F'', ''A'', ''G'', ''B'']"
    by (simp add: documentsToUpdate_def numeral_3_eq_3 example_after_F_def folderF_def fileA_def
        folderG_def fileB_def)
  have "newDocuments (documents example_after_F) [''F'', ''A'', ''G'', ''B''] False =
      [folderF, fileA\<lparr>isSubscribed := False\<rparr>, folderG, fileB]"
    by (simp add: newDocuments_def example_after_F_def folderF_def fileA_def folderG_def fileB_def)
  with ids have "toggle 3 (Some ''c1'') (folderF\<lparr>isSubscribed := True\<rparr>) (Response True)
      example_after_F =
     Some \<lparr>documents = [folderF, fileA\<lparr>isSubscribed := False\<rparr>, folderG, fileB],
            isSubscribing = False\<rparr>"
    by (simp add: toggle_Response_True)
  moreover have "isSubscribed fileA"
    by (simp add: fileA_def)
  moreover have "documents example_after_F ! 0 = folderF\<lparr>isSubscribed := True\<rparr>"
    by (simp add: example_after_F_def)
  ultimately show ?thesis
    using example_toggle_once example_toggle_F
    by (simp add: example_picker_documents example_docs_def)
qed

section \<open>Properties of the sync job\<close>

lemma sync_step_completed:
  "syncStatus k = Some completed \<Longrightarrow> \<not> is_resync e \<Longrightarrow> sync_step e k = k"
  by (cases e) simp_all

lemma fold_sync_step_completed:
  "syncStatus k = Some completed \<Longrightarrow> filter is_resync events = [] \<Longrightarrow>
     fold sync_step events k = k"
proof (induction events)
  case Nil
  show ?case by simp
next
  case (Cons e events)
  from Cons.prems(2) have e: "\<not> is_resync e" and rest: "filter is_resync events = []"
    by (auto split: if_splits)
  from Cons.prems(1) e have "sync_step e k = k"
    by (rule sync_step_completed)
  with Cons.IH [OF Cons.prems(1) rest] show ?case
    by simp
qed

text \<open>
  Claim C8. A job in progress whose remote listing runs past the cap of 1000 documents
  is \<open>completed\<close> with \<open>isTruncated\<close> set, it keeps 1000 documents and its
  \<open>syncError\<close> is untouched; no later event but a resync changes that, so the job
  never becomes \<open>failed\<close>, and the picker shows the truncation notice for it. In the
  job record the status and the truncation flag are fields of their own: setting one
  leaves the other.
\<close>

theorem truncated_job_completes:
  assumes "syncStatus k = Some in_progress"
    and "ingestion_cap < length listing"
    and "filter is_resync later = []"
    and "k' = fold sync_step (ListingEnded now listing # later) k"
  shows "syncStatus k' = Some completed \<and> isTruncated k' = Some True \<and>
         syncStatus k' \<noteq> Some failed \<and> syncError k' = syncError k \<and>
         length (Knowledge.documents k') = ingestion_cap \<and>
         truncationNotice (isTruncated k') = Some ''*Sync was truncated to 1000 documents'' \<and>
         syncStatus (k'\<lparr>isTruncated := t\<rparr>) = syncStatus k' \<and>
         isTruncated (k'\<lparr>syncStatus := st\<rparr>) = isTruncated k'"
proof -
  let ?k1 = "sync_step (ListingEnded now listing) k"
  have k1: "?k1 = k\<lparr>Knowledge.documents := take ingestion_cap listing,
             isTruncated := Some True,
             syncStatus := Some completed, syncCompletedAt := Some now\<rparr>"
    using assms(1,2) by simp
  then have "syncStatus ?k1 = Some completed"
    by simp
  then have "fold sync_step later ?k1 = ?k1"
    using assms(3) by (rule fold_sync_step_completed)
  with assms(4) have "k' = ?k1"
    by simp
  with k1 assms(2) show ?thesis
    by (simp add: truncationNotice_def)
qed

lemma long_listing_length: "ingestion_cap < length long_listing"
  by (simp add: ingestion_cap_def long_listing_def)

theorem truncated_job_completes_witness:
  "syncStatus example_job = Some in_progress \<and> ingestion_cap < length long_listing \<and>
   filter is_resync [IngestionError ''late'', StartSync 9] = [] \<and>
   syncStatus (fold sync_step
      (ListingEnded 5 long_listing # [IngestionError ''late'', StartSync 9]) example_job)
     = Some completed \<and>
   isTruncated (fold sync_step
      (ListingEnded 5 long_listing # [IngestionError ''late'', StartSync 9]) example_job)
     = Some True \<and>
   syncError (fold sync_step
      (ListingEnded 5 long_listing # [IngestionError ''late'', StartSync 9]) example_job)
     = None"
proof -
  have a: "syncStatus example_job = Some in_progress"
    by (simp add: example_job_def)
  have b: "filter is_resync [IngestionError ''late'', StartSync 9] = []"
    by simp
  have c: "syncError example_job = None"
    by (simp add: example_job_def)
  from truncated_job_completes [OF a long_listing_length b refl] a b c long_listing_length
  show ?thesis
    by simp
qed

end
